theory Spec2Isabelle
  imports Main
begin

section \<open>Package pipeline: build-pipeline factory, registry of active pipelines, artifact names\<close>

text \<open>
  The development follows \<^verbatim>\<open>pipeline/pipeline.go\<close>. Three declarations the file
  uses come from the root package \<^verbatim>\<open>gaia\<close> and from a sibling file, so they are not
  fixed here:
  \<^item> \<^verbatim>\<open>gaia.PipelineType\<close> is a type variable \<open>'t\<close>; the constant \<^verbatim>\<open>gaia.GOLANG\<close>
    and the method \<^verbatim>\<open>String()\<close> are arguments \<open>GOLANG\<close> and \<open>String\<close> of the
    functions that use them;
  \<^item> \<^verbatim>\<open>gaia.Pipeline\<close> is a record of which only the field \<open>Name\<close> is read; every other
    field lives in the extension of the record;
  \<^item> \<^verbatim>\<open>BuildPipelineGolang\<close> is a record with the one field the composite literal in
    \<^verbatim>\<open>NewBuildPipeline\<close> sets.
\<close>

subsection \<open>Data\<close>

record Pipeline =
  Name :: string

record 't BuildPipelineGolang =
  Type :: 't

text \<open>
  A value of the interface \<^verbatim>\<open>BuildPipeline\<close> is \<open>None\<close> for the nil interface and
  \<open>Some\<close> of the implementation it points to otherwise.
\<close>

type_synonym 't BuildPipeline = "'t BuildPipelineGolang option"

text \<open>
  A Go slice: \<open>None\<close> is the nil slice, \<open>Some xs\<close> a non-nil slice with the elements
  \<open>xs\<close>. \<^verbatim>\<open>make([]T, 0)\<close> is non-nil and empty, \<^verbatim>\<open>len\<close> of nil is 0, \<^verbatim>\<open>append\<close>
  to nil allocates, and \<^verbatim>\<open>range\<close> over nil runs no iteration.
\<close>

type_synonym 'a slice = "'a list option"

definition make_slice :: "'a slice" where
  "make_slice = Some []"

definition len :: "'a slice \<Rightarrow> nat" where
  "len s = (case s of None \<Rightarrow> 0 | Some xs \<Rightarrow> length xs)"

definition append_slice :: "'a slice \<Rightarrow> 'a \<Rightarrow> 'a slice" where
  "append_slice s x = (case s of None \<Rightarrow> Some [x] | Some xs \<Rightarrow> Some (xs @ [x]))"

definition range_slice :: "'a slice \<Rightarrow> 'a list" where
  "range_slice s = (case s of None \<Rightarrow> [] | Some xs \<Rightarrow> xs)"

text \<open>
  The embedded \<^verbatim>\<open>sync.RWMutex\<close>. The file only ever takes it exclusively
  (\<^verbatim>\<open>Lock\<close>/\<^verbatim>\<open>Unlock\<close>), so two states are enough. Its zero value is unlocked.
\<close>

datatype RWMutex = Unlocked | Locked

record 'p ActivePipelines =
  RWMutex :: RWMutex
  Pipelines :: "'p slice"

subsection \<open>Constants\<close>

definition tmpFolder :: string where
  "tmpFolder = ''tmp''"

definition maxTimeoutMinutes :: nat where
  "maxTimeoutMinutes = 60"

definition typeDelimiter :: string where
  "typeDelimiter = ''_''"

subsection \<open>NewBuildPipeline\<close>

text \<open>
  \<^verbatim>\<open>var bP BuildPipeline\<close> starts as the nil interface; the switch has the single case
  \<^verbatim>\<open>gaia.GOLANG\<close> and no default.
\<close>

definition NewBuildPipeline :: "'t \<Rightarrow> 't \<Rightarrow> 't BuildPipeline" where
  "NewBuildPipeline GOLANG t = (if t = GOLANG then Some \<lparr>Type = t\<rparr> else None)"

subsection \<open>The registry\<close>

definition NewActivePipelines :: "'p ActivePipelines" where
  "NewActivePipelines = \<lparr>RWMutex = Unlocked, Pipelines = make_slice\<rparr>"

text \<open>
  The model is that of one client calling the registry's operations one after the other.
  An operation that never returns has the result \<open>None\<close>. \<^verbatim>\<open>ap.Lock()\<close> on a held
  mutex waits for the holder; between two operations of the client the only possible
  holder is a goroutine of an earlier \<^verbatim>\<open>Iter\<close> that is parked at a send on a channel
  nobody reads any more, so the wait never ends.

  A goroutine is run at once up to the point where it has to wait. For \<^verbatim>\<open>Contains\<close> and
  for a traversal the schedule makes no difference: the reader's next step is a receive on
  the unbuffered channel, which waits for the goroutine in any case. A client that calls
  \<^verbatim>\<open>Append\<close> between a call of \<^verbatim>\<open>Iter\<close> and its first receive races with the
  goroutine for the mutex; that interleaving is outside the model, and nothing below is
  stated about it.
\<close>

definition Lock :: "'p ActivePipelines \<Rightarrow> 'p ActivePipelines option" where
  "Lock ap = (if RWMutex ap = Locked then None else Some (ap\<lparr>RWMutex := Locked\<rparr>))"

definition Unlock :: "'p ActivePipelines \<Rightarrow> 'p ActivePipelines" where
  "Unlock ap = ap\<lparr>RWMutex := Unlocked\<rparr>"

definition Append :: "'p ActivePipelines \<Rightarrow> 'p \<Rightarrow> 'p ActivePipelines option" where
  "Append ap p =
     (case Lock ap of
        None \<Rightarrow> None
      | Some ap1 \<Rightarrow> Some (Unlock (ap1\<lparr>Pipelines := append_slice (Pipelines ap1) p\<rparr>)))"

text \<open>
  The unbuffered channel \<^verbatim>\<open>c\<close> of \<^verbatim>\<open>Iter\<close> is known by the point at which the goroutine
  feeding it is parked: at \<^verbatim>\<open>ap.Lock()\<close>; at \<^verbatim>\<open>c <- pipeline\<close>, holding the mutex, with
  the element it offers and the elements still to come; or past \<^verbatim>\<open>close(c)\<close> and the
  deferred \<^verbatim>\<open>ap.Unlock()\<close>.
\<close>

datatype 'p chan = AtLock | AtSend 'p "'p list" | Closed

text \<open>The \<^verbatim>\<open>for ... range\<close> loop of the goroutine, run up to its next send or to its end.\<close>

definition iter_loop :: "'p list \<Rightarrow> 'p ActivePipelines \<Rightarrow> 'p chan \<times> 'p ActivePipelines" where
  "iter_loop ps ap =
     (case ps of
        [] \<Rightarrow> (Closed, Unlock ap)
      | pipeline # rest \<Rightarrow> (AtSend pipeline rest, ap))"

definition Iter :: "'p ActivePipelines \<Rightarrow> 'p chan \<times> 'p ActivePipelines" where
  "Iter ap =
     (case Lock ap of
        None \<Rightarrow> (AtLock, ap)
      | Some ap1 \<Rightarrow> iter_loop (range_slice (Pipelines ap1)) ap1)"

text \<open>
  One receive by the reader of the channel. It meets the parked send, after which the
  goroutine runs on to its next send or to its end; on a closed channel it reports the
  end (\<open>None\<close> as the element); on a channel whose goroutine waits for the mutex it
  never returns.
\<close>

definition recv ::
  "'p chan \<Rightarrow> 'p ActivePipelines \<Rightarrow> ('p option \<times> 'p chan \<times> 'p ActivePipelines) option" where
  "recv c ap =
     (case c of
        AtLock \<Rightarrow> None
      | AtSend pipeline rest \<Rightarrow>
          (case iter_loop rest ap of (c', ap') \<Rightarrow> Some (Some pipeline, c', ap'))
      | Closed \<Rightarrow> Some (None, Closed, ap))"

text \<open>The number of elements a channel can still deliver: the measure of the two loops below.\<close>

fun pending :: "'p chan \<Rightarrow> nat" where
  "pending AtLock = 0"
| "pending (AtSend pipeline rest) = Suc (length rest)"
| "pending Closed = 0"

text \<open>
  The loop \<^verbatim>\<open>for pipeline := range ap.Iter()\<close> of \<^verbatim>\<open>Contains\<close>, with its early
  \<^verbatim>\<open>return true\<close>. The channel is returned with the answer to show where the goroutine
  is left.
\<close>

function Contains_range ::
  "string \<Rightarrow> ('a Pipeline_scheme) chan \<Rightarrow> ('a Pipeline_scheme) ActivePipelines \<Rightarrow>
     (bool \<times> ('a Pipeline_scheme) chan \<times> ('a Pipeline_scheme) ActivePipelines) option" where
  "Contains_range n c ap =
     (case recv c ap of
        None \<Rightarrow> None
      | Some (None, c', ap') \<Rightarrow> Some (False, c', ap')
      | Some (Some pipeline, c', ap') \<Rightarrow>
          if Name pipeline = n then Some (True, c', ap') else Contains_range n c' ap')"
  by pat_completeness auto
termination
  by (relation "measure (\<lambda>(n, c, ap). pending c)")
    (auto simp: recv_def iter_loop_def split: chan.splits list.splits)

definition Contains ::
  "('a Pipeline_scheme) ActivePipelines \<Rightarrow> string \<Rightarrow>
     (bool \<times> ('a Pipeline_scheme) ActivePipelines) option" where
  "Contains ap n =
     (case Iter ap of (c, ap1) \<Rightarrow>
        (case Contains_range n c ap1 of
           None \<Rightarrow> None
         | Some (found, c', ap') \<Rightarrow> Some (found, ap')))"

text \<open>
  A traversal: a reader running \<^verbatim>\<open>for pipeline := range ap.Iter()\<close> to the end of the
  channel and keeping what it receives.
\<close>

function drain :: "'p chan \<Rightarrow> 'p ActivePipelines \<Rightarrow> ('p list \<times> 'p ActivePipelines) option" where
  "drain c ap =
     (case recv c ap of
        None \<Rightarrow> None
      | Some (None, c', ap') \<Rightarrow> Some ([], ap')
      | Some (Some pipeline, c', ap') \<Rightarrow>
          (case drain c' ap' of
             None \<Rightarrow> None
           | Some (ps, ap'') \<Rightarrow> Some (pipeline # ps, ap'')))"
  by pat_completeness auto
termination
  by (relation "measure (\<lambda>(c, ap). pending c)")
    (auto simp: recv_def iter_loop_def split: chan.splits list.splits)

definition Traverse :: "'p ActivePipelines \<Rightarrow> ('p list \<times> 'p ActivePipelines) option" where
  "Traverse ap = (case Iter ap of (c, ap1) \<Rightarrow> drain c ap1)"

text \<open>A client that appends the pipelines of a list, one call after the other.\<close>

fun AppendAll :: "'p ActivePipelines \<Rightarrow> 'p list \<Rightarrow> 'p ActivePipelines option" where
  "AppendAll ap [] = Some ap"
| "AppendAll ap (p # ps) =
     (case Append ap p of None \<Rightarrow> None | Some ap' \<Rightarrow> AppendAll ap' ps)"

subsection \<open>appendTypeToName\<close>

text \<open>
  \<^verbatim>\<open>fmt.Sprintf("%s%s%s", n, typeDelimiter, pType.String())\<close> with three string operands
  writes them one after the other.
\<close>

definition appendTypeToName :: "('t \<Rightarrow> string) \<Rightarrow> string \<Rightarrow> 't \<Rightarrow> string" where
  "appendTypeToName String n pType = n @ typeDelimiter @ String pType"

subsection \<open>Decoding an artifact name\<close>

text \<open>
  Modelled from the spec: the decoder of artifact names, which \<^verbatim>\<open>pipeline.go\<close> does
  not contain. The spec asks that the type be recoverable "by splitting on the delimiter
  and parsing the suffix" and calls a name legal when the delimiter does not appear in
  it. The split is at the first delimiter; the parser of type strings, which belongs
  with \<^verbatim>\<open>gaia.PipelineType\<close>, is the argument \<open>parseType\<close>.
\<close>

definition legalName :: "string \<Rightarrow> bool" where
  "legalName n = list_all (\<lambda>c. [c] \<noteq> typeDelimiter) n"

fun splitDelimiter :: "string \<Rightarrow> (string \<times> string) option" where
  "splitDelimiter [] = None"
| "splitDelimiter (c # cs) =
     (if [c] = typeDelimiter then Some ([], cs)
      else (case splitDelimiter cs of
              None \<Rightarrow> None
            | Some (name, suffix) \<Rightarrow> Some (c # name, suffix)))"

definition parse :: "(string \<Rightarrow> 't option) \<Rightarrow> string \<Rightarrow> (string \<times> 't) option" where
  "parse parseType s =
     (case splitDelimiter s of
        None \<Rightarrow> None
      | Some (name, suffix) \<Rightarrow>
          (case parseType suffix of
             None \<Rightarrow> None
           | Some t \<Rightarrow> Some (name, t)))"

declare Contains_range.simps [simp del] drain.simps [simp del]

section \<open>Properties\<close>

subsection \<open>The mutex, Append and the loops over the channel\<close>

lemma Append_Unlocked:
  "RWMutex ap = Unlocked \<Longrightarrow> Append ap p = Some (ap\<lparr>Pipelines := append_slice (Pipelines ap) p\<rparr>)"
  by (simp add: Append_def Lock_def Unlock_def)

lemma Append_Locked: "RWMutex ap = Locked \<Longrightarrow> Append ap p = None"
  by (simp add: Append_def Lock_def)

lemma AppendAll_Unlocked:
  "RWMutex ap = Unlocked \<Longrightarrow> Pipelines ap = Some xs \<Longrightarrow>
   AppendAll ap ps = Some (ap\<lparr>Pipelines := Some (xs @ ps)\<rparr>)"
proof (induction ps arbitrary: ap xs)
  case Nil
  then show ?case by simp
next
  case (Cons p ps)
  have "Append ap p = Some (ap\<lparr>Pipelines := Some (xs @ [p])\<rparr>)"
    using Cons.prems by (simp add: Append_Unlocked append_slice_def)
  moreover have "AppendAll (ap\<lparr>Pipelines := Some (xs @ [p])\<rparr>) ps =
      Some (ap\<lparr>Pipelines := Some (xs @ [p])\<rparr>\<lparr>Pipelines := Some ((xs @ [p]) @ ps)\<rparr>)"
    using Cons.prems by (intro Cons.IH) simp_all
  ultimately show ?case by simp
qed

lemma Contains_range_AtLock: "Contains_range n AtLock ap = None"
  by (subst Contains_range.simps) (simp add: recv_def)

lemma Contains_range_Closed: "Contains_range n Closed ap = Some (False, Closed, ap)"
  by (subst Contains_range.simps) (simp add: recv_def)

lemma Contains_range_AtSend:
  "Contains_range n (AtSend p rest) ap =
     (if Name p = n then Some (True, fst (iter_loop rest ap), snd (iter_loop rest ap))
      else Contains_range n (fst (iter_loop rest ap)) (snd (iter_loop rest ap)))"
  by (subst Contains_range.simps) (simp add: recv_def split: prod.splits)

lemma drain_AtLock: "drain AtLock ap = None"
  by (subst drain.simps) (simp add: recv_def)

lemma drain_Closed: "drain Closed ap = Some ([], ap)"
  by (subst drain.simps) (simp add: recv_def)

lemma drain_AtSend:
  "drain (AtSend p rest) ap =
     (case drain (fst (iter_loop rest ap)) (snd (iter_loop rest ap)) of
        None \<Rightarrow> None
      | Some (ps, ap'') \<Rightarrow> Some (p # ps, ap''))"
  by (subst drain.simps) (simp add: recv_def split: prod.splits)

lemma Contains_range_iter_loop:
  "Contains_range n (fst (iter_loop ps ap)) (snd (iter_loop ps ap)) =
     (case dropWhile (\<lambda>p. Name p \<noteq> n) ps of
        [] \<Rightarrow> Some (False, Closed, Unlock ap)
      | p # rest \<Rightarrow> Some (True, fst (iter_loop rest ap), snd (iter_loop rest ap)))"
proof (induction ps)
  case Nil
  show ?case
    by (simp add: iter_loop_def Contains_range_Closed)
next
  case (Cons p ps)
  then show ?case
    by (simp add: iter_loop_def [of "p # ps"] Contains_range_AtSend)
qed

lemma drain_iter_loop:
  "drain (fst (iter_loop ps ap)) (snd (iter_loop ps ap)) = Some (ps, Unlock ap)"
proof (induction ps)
  case Nil
  show ?case
    by (simp add: iter_loop_def drain_Closed)
next
  case (Cons p ps)
  then show ?case
    by (simp add: iter_loop_def [of "p # ps"] drain_AtSend)
qed

lemma Iter_Unlocked:
  "RWMutex ap = Unlocked \<Longrightarrow>
   Iter ap = iter_loop (range_slice (Pipelines ap)) (ap\<lparr>RWMutex := Locked\<rparr>)"
  by (simp add: Iter_def Lock_def)

lemma Iter_Locked: "RWMutex ap = Locked \<Longrightarrow> Iter ap = (AtLock, ap)"
  by (simp add: Iter_def Lock_def)

lemma snd_iter_loop: "snd (iter_loop rest ap) = (if rest = [] then Unlock ap else ap)"
  by (simp add: iter_loop_def split: list.splits)

lemma Contains_Unlocked:
  assumes "RWMutex ap = Unlocked"
  shows "Contains ap n =
     (case dropWhile (\<lambda>p. Name p \<noteq> n) (range_slice (Pipelines ap)) of
        [] \<Rightarrow> Some (False, ap)
      | p # rest \<Rightarrow> Some (True, if rest = [] then ap else ap\<lparr>RWMutex := Locked\<rparr>))"
proof -
  let ?ap1 = "ap\<lparr>RWMutex := Locked\<rparr>"
  let ?ps = "range_slice (Pipelines ap)"
  have u: "Unlock ?ap1 = ap"
    using assms by (simp add: Unlock_def)
  have c: "Contains ap n =
      (case Contains_range n (fst (iter_loop ?ps ?ap1)) (snd (iter_loop ?ps ?ap1)) of
         None \<Rightarrow> None | Some (found, c', ap') \<Rightarrow> Some (found, ap'))"
    using assms by (simp add: Contains_def Iter_Unlocked split: prod.splits)
  show ?thesis
  proof (cases "dropWhile (\<lambda>p. Name p \<noteq> n) ?ps")
    case Nil
    show ?thesis
      unfolding c Contains_range_iter_loop Nil using u by simp
  next
    case (Cons p rest)
    show ?thesis
      unfolding c Contains_range_iter_loop Cons using u
      by (simp add: snd_iter_loop)
  qed
qed

lemma Contains_Locked: "RWMutex ap = Locked \<Longrightarrow> Contains ap n = None"
  by (simp add: Contains_def Iter_Locked Contains_range_AtLock)

lemma Traverse_Unlocked:
  assumes "RWMutex ap = Unlocked"
  shows "Traverse ap = Some (range_slice (Pipelines ap), ap)"
proof -
  let ?ap1 = "ap\<lparr>RWMutex := Locked\<rparr>"
  let ?ps = "range_slice (Pipelines ap)"
  have "Unlock ?ap1 = ap"
    using assms by (simp add: Unlock_def)
  moreover have "Traverse ap = drain (fst (iter_loop ?ps ?ap1)) (snd (iter_loop ?ps ?ap1))"
    using assms by (simp add: Traverse_def Iter_Unlocked split: prod.splits)
  ultimately show ?thesis
    by (simp add: drain_iter_loop)
qed

lemma Traverse_Locked: "RWMutex ap = Locked \<Longrightarrow> Traverse ap = None"
  by (simp add: Traverse_def Iter_Locked drain_AtLock)

lemma Contains_Unlocked_found:
  assumes "RWMutex ap = Unlocked"
  shows "map_option fst (Contains ap n) = Some (n \<in> Name ` set (range_slice (Pipelines ap)))"
proof (cases "dropWhile (\<lambda>p. Name p \<noteq> n) (range_slice (Pipelines ap))")
  case Nil
  then have "n \<notin> Name ` set (range_slice (Pipelines ap))"
    by (auto simp: dropWhile_eq_Nil_conv)
  then show ?thesis
    unfolding Contains_Unlocked [OF assms] Nil by simp
next
  case (Cons p rest)
  then have "p \<in> set (range_slice (Pipelines ap))" "Name p = n"
    using set_dropWhileD [of p "\<lambda>p. Name p \<noteq> n" "range_slice (Pipelines ap)"]
      hd_dropWhile [of "\<lambda>p. Name p \<noteq> n" "range_slice (Pipelines ap)"]
    by auto
  then have "n \<in> Name ` set (range_slice (Pipelines ap))"
    by auto
  then show ?thesis
    unfolding Contains_Unlocked [OF assms] Cons by simp
qed

lemma AppendAll_NewActivePipelines:
  "AppendAll NewActivePipelines ps = Some \<lparr>RWMutex = Unlocked, Pipelines = Some ps\<rparr>"
  using AppendAll_Unlocked [of NewActivePipelines "[]" ps]
  by (simp add: NewActivePipelines_def make_slice_def)

subsection \<open>Contains\<close>

text \<open>
  Claim C1. In every state of the registry, \<open>Contains n\<close> returns true exactly when some
  entry of the sequence has the name \<open>n\<close>.

  On a registry whose mutex is free this is \<open>Contains_Unlocked_found\<close> above. It is not
  so in every state the code reaches: after \<^verbatim>\<open>Append\<close> of \<^verbatim>\<open>a\<close> and of \<^verbatim>\<open>b\<close>, the call
  \<^verbatim>\<open>Contains("a")\<close> returns true at the first entry and leaves the mutex held; the
  sequence still has the entry named \<^verbatim>\<open>b\<close>, and \<^verbatim>\<open>Contains("b")\<close> never returns.
\<close>

theorem Contains_blocks_after_early_return:
  "AppendAll NewActivePipelines [\<lparr>Name = ''a''\<rparr>, \<lparr>Name = ''b''\<rparr>] =
     Some \<lparr>RWMutex = Unlocked, Pipelines = Some [\<lparr>Name = ''a''\<rparr>, \<lparr>Name = ''b''\<rparr>]\<rparr> \<and>
   Contains \<lparr>RWMutex = Unlocked, Pipelines = Some [\<lparr>Name = ''a''\<rparr>, \<lparr>Name = ''b''\<rparr>]\<rparr> ''a'' =
     Some (True, \<lparr>RWMutex = Locked, Pipelines = Some [\<lparr>Name = ''a''\<rparr>, \<lparr>Name = ''b''\<rparr>]\<rparr>) \<and>
   map Name (range_slice (Pipelines \<lparr>RWMutex = Locked, Pipelines = Some [\<lparr>Name = ''a''\<rparr>, \<lparr>Name = ''b''\<rparr>]\<rparr>)) = [''a'', ''b''] \<and>
   Contains \<lparr>RWMutex = Locked, Pipelines = Some [\<lparr>Name = ''a''\<rparr>, \<lparr>Name = ''b''\<rparr>]\<rparr> ''b'' = None"
  by (simp add: NewActivePipelines_def make_slice_def Append_def Lock_def Unlock_def
      append_slice_def range_slice_def Contains_def Iter_def iter_loop_def
      Contains_range_AtSend Contains_range_AtLock)

text \<open>
  Claim C8, as amended. When \<open>Contains n\<close> returns true at an entry that is not the last
  one (the sequence is \<open>xs @ p # q # ys\<close>, no entry of \<open>xs\<close> is named \<open>n\<close> and \<open>p\<close> is),
  the goroutine of \<^verbatim>\<open>Iter\<close> is left parked at the send of the next entry \<open>q\<close> with the
  mutex held. From then on \<^verbatim>\<open>Append\<close> and \<^verbatim>\<open>Contains\<close> never return. A call of
  \<^verbatim>\<open>Iter\<close> still returns its channel, but its goroutine stays at \<^verbatim>\<open>ap.Lock()\<close>, a
  receive on the channel never returns and so no traversal does. No operation is left
  that could release the mutex.
\<close>

theorem Contains_early_return_holds_lock:
  assumes "RWMutex ap = Unlocked"
    and "range_slice (Pipelines ap) = xs @ p # q # ys"
    and "n \<notin> Name ` set xs"
    and "Name p = n"
  shows "Contains_range n (fst (Iter ap)) (snd (Iter ap)) =
       Some (True, AtSend q ys, ap\<lparr>RWMutex := Locked\<rparr>) \<and>
     Contains ap n = Some (True, ap\<lparr>RWMutex := Locked\<rparr>) \<and>
     Append (ap\<lparr>RWMutex := Locked\<rparr>) x = None \<and>
     Contains (ap\<lparr>RWMutex := Locked\<rparr>) m = None \<and>
     Iter (ap\<lparr>RWMutex := Locked\<rparr>) = (AtLock, ap\<lparr>RWMutex := Locked\<rparr>) \<and>
     recv AtLock (ap\<lparr>RWMutex := Locked\<rparr>) = None \<and>
     Traverse (ap\<lparr>RWMutex := Locked\<rparr>) = None"
proof -
  let ?ap1 = "ap\<lparr>RWMutex := Locked\<rparr>"
  have l: "RWMutex ?ap1 = Locked"
    by simp
  have "Name x \<noteq> n" if "x \<in> set xs" for x
    using that assms(3) by (metis imageI)
  then have d: "dropWhile (\<lambda>p. Name p \<noteq> n) (xs @ p # q # ys) = p # q # ys"
    using assms(4) by (subst dropWhile_append3) simp_all
  have "Contains_range n (fst (Iter ap)) (snd (Iter ap)) = Some (True, AtSend q ys, ?ap1)"
    unfolding Iter_Unlocked [OF assms(1)] Contains_range_iter_loop assms(2) d
    by (simp add: iter_loop_def)
  moreover have "Contains ap n = Some (True, ?ap1)"
    unfolding Contains_Unlocked [OF assms(1)] assms(2) d by simp
  moreover have "recv AtLock ?ap1 = None"
    by (simp add: recv_def)
  ultimately show ?thesis
    using l by (simp add: Append_Locked Contains_Locked Iter_Locked Traverse_Locked)
qed

theorem Contains_early_return_holds_lock_witness:
  "RWMutex \<lparr>RWMutex = Unlocked, Pipelines = Some [\<lparr>Name = ''a''\<rparr>, \<lparr>Name = ''b''\<rparr>]\<rparr> = Unlocked \<and>
   range_slice (Pipelines \<lparr>RWMutex = Unlocked, Pipelines = Some [\<lparr>Name = ''a''\<rparr>, \<lparr>Name = ''b''\<rparr>]\<rparr>) = [] @ \<lparr>Name = ''a''\<rparr> # \<lparr>Name = ''b''\<rparr> # [] \<and>
   ''a'' \<notin> Name ` set ([] :: Pipeline list) \<and>
   Contains \<lparr>RWMutex = Unlocked, Pipelines = Some [\<lparr>Name = ''a''\<rparr>, \<lparr>Name = ''b''\<rparr>]\<rparr> ''a'' = Some (True, \<lparr>RWMutex = Locked, Pipelines = Some [\<lparr>Name = ''a''\<rparr>, \<lparr>Name = ''b''\<rparr>]\<rparr>) \<and>
   Append \<lparr>RWMutex = Locked, Pipelines = Some [\<lparr>Name = ''a''\<rparr>, \<lparr>Name = ''b''\<rparr>]\<rparr> \<lparr>Name = ''c''\<rparr> = None \<and>
   Contains \<lparr>RWMutex = Locked, Pipelines = Some [\<lparr>Name = ''a''\<rparr>, \<lparr>Name = ''b''\<rparr>]\<rparr> ''b'' = None \<and>
   Traverse \<lparr>RWMutex = Locked, Pipelines = Some [\<lparr>Name = ''a''\<rparr>, \<lparr>Name = ''b''\<rparr>]\<rparr> = None"
  using Contains_early_return_holds_lock
    [of "\<lparr>RWMutex = Unlocked, Pipelines = Some [\<lparr>Name = ''a''\<rparr>, \<lparr>Name = ''b''\<rparr>]\<rparr>"
      "[]" "\<lparr>Name = ''a''\<rparr>" "\<lparr>Name = ''b''\<rparr>" "[]" "''a''" "\<lparr>Name = ''c''\<rparr>" "''b''"]
  by (simp add: range_slice_def)

text \<open>
  As first written, C8 counts \<^verbatim>\<open>Iter\<close> among the calls that never return once the mutex
  is left held. \<^verbatim>\<open>Iter\<close> makes the channel, starts the goroutine and returns without
  touching the mutex: on the registry that \<^verbatim>\<open>Contains("a")\<close> leaves locked, the call has
  a result, the channel whose goroutine waits at \<^verbatim>\<open>ap.Lock()\<close>, and the registry is as
  before.
\<close>

theorem Iter_returns_on_held_lock:
  "Contains \<lparr>RWMutex = Unlocked, Pipelines = Some [\<lparr>Name = ''a''\<rparr>, \<lparr>Name = ''b''\<rparr>]\<rparr> ''a'' =
     Some (True, \<lparr>RWMutex = Locked, Pipelines = Some [\<lparr>Name = ''a''\<rparr>, \<lparr>Name = ''b''\<rparr>]\<rparr>) \<and>
   Iter \<lparr>RWMutex = Locked, Pipelines = Some [\<lparr>Name = ''a''\<rparr>, \<lparr>Name = ''b''\<rparr>]\<rparr> =
     (AtLock, \<lparr>RWMutex = Locked, Pipelines = Some [\<lparr>Name = ''a''\<rparr>, \<lparr>Name = ''b''\<rparr>]\<rparr>)"
  by (simp add: Contains_def Iter_def Lock_def iter_loop_def range_slice_def
      Contains_range_AtSend)

subsection \<open>Append and traversal\<close>

text \<open>
  Claim C2. After any sequence of \<^verbatim>\<open>Append\<close> calls on a new registry every call has
  returned and the length of the sequence is the number of calls; a traversal then
  yields every appended pipeline; and one more \<^verbatim>\<open>Append\<close> puts its pipeline at the end
  whatever names are already there.
\<close>

theorem Append_count_and_presence:
  "\<exists>ap. AppendAll NewActivePipelines ps = Some ap \<and>
     len (Pipelines ap) = length ps \<and>
     (\<exists>out ap'. Traverse ap = Some (out, ap') \<and> set ps \<subseteq> set out) \<and>
     (\<exists>ap''. Append ap p = Some ap'' \<and>
        range_slice (Pipelines ap'') = range_slice (Pipelines ap) @ [p])"
proof -
  let ?ap = "\<lparr>RWMutex = Unlocked, Pipelines = Some ps\<rparr>"
  have "AppendAll NewActivePipelines ps = Some ?ap"
    by (rule AppendAll_NewActivePipelines)
  moreover have "len (Pipelines ?ap) = length ps"
    by (simp add: len_def)
  moreover have "Traverse ?ap = Some (ps, ?ap)"
    using Traverse_Unlocked [of ?ap] by (simp add: range_slice_def)
  moreover have "Append ?ap p = Some (?ap\<lparr>Pipelines := Some (ps @ [p])\<rparr>)"
    using Append_Unlocked [of ?ap p] by (simp add: append_slice_def)
  ultimately show ?thesis
    by (auto simp: range_slice_def)
qed

text \<open>
  Claim C3. A traversal started after the pipelines \<open>ps\<close> were appended to a new registry
  yields exactly \<open>ps\<close>, in the order of the calls, and leaves the registry such that a
  second traversal yields \<open>ps\<close> again.
\<close>

theorem Traverse_append_order:
  "\<exists>ap ap'. AppendAll NewActivePipelines ps = Some ap \<and>
     Traverse ap = Some (ps, ap') \<and>
     Pipelines ap' = Pipelines ap \<and>
     Traverse ap' = Some (ps, ap')"
proof -
  let ?ap = "\<lparr>RWMutex = Unlocked, Pipelines = Some ps\<rparr>"
  have "AppendAll NewActivePipelines ps = Some ?ap"
    by (rule AppendAll_NewActivePipelines)
  moreover have "Traverse ?ap = Some (ps, ?ap)"
    using Traverse_Unlocked [of ?ap] by (simp add: range_slice_def)
  ultimately show ?thesis
    by blast
qed

text \<open>
  Claim C10. \<^verbatim>\<open>NewActivePipelines\<close> returns a registry whose sequence is empty and not
  nil; on it \<open>Contains n\<close> returns false for every \<open>n\<close>, the goroutine of \<^verbatim>\<open>Iter\<close> closes
  the channel without a send, and a traversal yields nothing.
\<close>

theorem NewActivePipelines_empty:
  fixes n :: string
  defines "ap \<equiv> (NewActivePipelines :: ('a Pipeline_scheme) ActivePipelines)"
  shows "Pipelines ap = Some [] \<and> Pipelines ap \<noteq> None \<and> len (Pipelines ap) = 0 \<and>
     Contains ap n = Some (False, ap) \<and>
     Iter ap = (Closed, ap) \<and> Traverse ap = Some ([], ap)"
proof -
  have u: "RWMutex ap = Unlocked" and p: "Pipelines ap = Some []"
    by (simp_all add: ap_def NewActivePipelines_def make_slice_def)
  have "Unlock (ap\<lparr>RWMutex := Locked\<rparr>) = ap"
    using u by (simp add: Unlock_def)
  then have "Iter ap = (Closed, ap)"
    using p by (simp add: Iter_Unlocked [OF u] iter_loop_def range_slice_def)
  moreover have "Contains ap n = Some (False, ap)"
    using p by (simp add: Contains_Unlocked [OF u] range_slice_def)
  moreover have "Traverse ap = Some ([], ap)"
    using p by (simp add: Traverse_Unlocked [OF u] range_slice_def)
  ultimately show ?thesis
    using p by (simp add: len_def)
qed

subsection \<open>The factory\<close>

text \<open>
  Claim C4. \<^verbatim>\<open>NewBuildPipeline\<close> returns nil for every type other than \<^verbatim>\<open>GOLANG\<close>, the
  only type with a case in the switch, and for \<^verbatim>\<open>GOLANG\<close> an instance whose field
  \<open>Type\<close> is the requested type. The function has a result for every argument.
\<close>

theorem NewBuildPipeline_dispatch:
  "(t \<noteq> GOLANG \<longrightarrow> NewBuildPipeline GOLANG t = None) \<and>
   (\<exists>bP. NewBuildPipeline GOLANG GOLANG = Some bP \<and> Type bP = GOLANG)"
  by (simp add: NewBuildPipeline_def)

theorem NewBuildPipeline_dispatch_witness:
  "''unknown'' \<noteq> ''golang'' \<and> NewBuildPipeline ''golang'' ''unknown'' = None \<and>
   (\<exists>bP. NewBuildPipeline ''golang'' ''golang'' = Some bP \<and> Type bP = ''golang'')"
  using NewBuildPipeline_dispatch [of "''unknown''" "''golang''"]
  by simp

subsection \<open>Artifact names\<close>

lemma splitDelimiter_legalName:
  "legalName n \<Longrightarrow> splitDelimiter (n @ typeDelimiter @ s) = Some (n, s)"
  by (induction n) (simp_all add: legalName_def typeDelimiter_def)

text \<open>For one type the encoding never confuses two names, legal or not.\<close>

lemma appendTypeToName_inj_name:
  "appendTypeToName String n1 pType = appendTypeToName String n2 pType \<Longrightarrow> n1 = n2"
  by (simp add: appendTypeToName_def)

text \<open>Two legal names with the same artifact name are equal, and so are the type strings.\<close>

lemma appendTypeToName_inj_legal:
  assumes "legalName n1" and "legalName n2"
    and "appendTypeToName String n1 t1 = appendTypeToName String n2 t2"
  shows "n1 = n2 \<and> String t1 = String t2"
proof -
  have "splitDelimiter (appendTypeToName String n1 t1) = Some (n1, String t1)"
    and "splitDelimiter (appendTypeToName String n2 t2) = Some (n2, String t2)"
    using assms(1,2) by (simp_all add: appendTypeToName_def splitDelimiter_legalName)
  with assms(3) show ?thesis
    by simp
qed

text \<open>
  The decoder only ever yields a legal name, so it does not give back a name that has
  the delimiter in it.
\<close>

lemma splitDelimiter_name_legal:
  "splitDelimiter s = Some (name, suffix) \<Longrightarrow> legalName name"
proof (induction s arbitrary: name)
  case Nil
  then show ?case by simp
next
  case (Cons c cs)
  show ?case
  proof (cases "[c] = typeDelimiter")
    case True
    with Cons.prems show ?thesis
      by (simp add: legalName_def)
  next
    case False
    with Cons.prems obtain name' where "splitDelimiter cs = Some (name', suffix)" "name = c # name'"
      by (auto split: option.splits)
    with Cons.IH False show ?thesis
      by (simp add: legalName_def)
  qed
qed

lemma parse_name_legal:
  "parse parseType s = Some (name, t) \<Longrightarrow> legalName name"
  by (auto simp: parse_def split: option.splits dest: splitDelimiter_name_legal)

lemma parse_illegal_name:
  "\<not> legalName n \<Longrightarrow> parse parseType (appendTypeToName String n pType) \<noteq> Some (n, pType)"
  by (auto dest: parse_name_legal)

text \<open>
  Claim C6. The artifact name is the pipeline name, then the delimiter \<^verbatim>\<open>_\<close>, then the
  string form of the type.
\<close>

theorem appendTypeToName_concat:
  "appendTypeToName String n pType = n @ ''_'' @ String pType"
  by (simp add: appendTypeToName_def typeDelimiter_def)

text \<open>
  Claim C5. For a legal name (one without the delimiter) and any type, splitting the
  artifact name at the delimiter and parsing the suffix gives back the name and the
  type, for every parser of type strings that inverts \<^verbatim>\<open>String()\<close>.
\<close>

theorem parse_appendTypeToName:
  assumes "legalName n"
    and "\<And>t. parseType (String t) = Some t"
  shows "parse parseType (appendTypeToName String n pType) = Some (n, pType)"
  using assms by (simp add: parse_def appendTypeToName_def splitDelimiter_legalName)

theorem parse_appendTypeToName_witness:
  "legalName ''demo'' \<and>
   (\<forall>t. (\<lambda>s. Some s) ((\<lambda>s. s) t) = Some (t :: string)) \<and>
   parse (\<lambda>s. Some s) (appendTypeToName (\<lambda>s. s) ''demo'' ''golang'') = Some (''demo'', ''golang'')"
  using parse_appendTypeToName [of "''demo''" "\<lambda>s. Some s" "\<lambda>s. s" "''golang''"]
  by (simp add: legalName_def typeDelimiter_def)



end
